theory Spec2Isabelle
  imports Complex_Main "HOL-Library.Char_ord" "HOL-Library.List_Lexorder"
begin

section \<open>JavaScript values and JSON text\<close>

text \<open>
  The store keeps every action as a plain JavaScript object and turns it into one line of
  JSON text. Objects are modelled as lists of key/value pairs in property enumeration
  order, since that order decides the bytes that \<open>JSON.stringify\<close> produces and
  therefore the hash. Numbers are restricted to integers (sequence numbers and counters),
  characters to the code units 0..255. \<open>JBigInt\<close> stands for the values on which
  \<open>JSON.stringify\<close> throws a TypeError. A property whose value is \<open>undefined\<close>
  is dropped by \<open>JSON.stringify\<close>; it is modelled as an absent property.
\<close>

datatype jvalue =
    JNull
  | JBool bool
  | JNum int
  | JStr string
  | JArr "jvalue list"
  | JObj "(string \<times> jvalue) list"
  | JBigInt int

type_synonym jobject = "(string \<times> jvalue) list"

text \<open>\<open>{...o, k: v}\<close>: an existing property keeps its position, a new one goes last.\<close>

fun obj_set :: "jobject \<Rightarrow> string \<Rightarrow> jvalue \<Rightarrow> jobject" where
  "obj_set [] k v = [(k, v)]"
| "obj_set ((k', v') # kvs) k v =
     (if k' = k then (k, v) # kvs else (k', v') # obj_set kvs k v)"

text \<open>\<open>const {k, ...rest} = o\<close>: the object without the property \<open>k\<close>.\<close>

definition obj_remove :: "string \<Rightarrow> jobject \<Rightarrow> jobject" where
  "obj_remove k kvs = filter (\<lambda>kv. fst kv \<noteq> k) kvs"

text \<open>Property access \<open>v.k\<close> on a value that is neither \<open>null\<close> nor \<open>undefined\<close>;
  \<open>None\<close> is \<open>undefined\<close>. (The names read by the code are never \<open>length\<close> or an index.)\<close>

fun get_prop :: "jvalue \<Rightarrow> string \<Rightarrow> jvalue option" where
  "get_prop (JObj kvs) k = map_of kvs k"
| "get_prop _ k = None"


subsection \<open>\<open>JSON.stringify\<close>\<close>

definition dquote :: char where "dquote = CHR 0x22"
definition bslash :: char where "bslash = CHR 0x5C"
definition newline :: char where "newline = CHR 0x0A"

definition digit_char :: "nat \<Rightarrow> char" where
  "digit_char d = char_of (48 + d)"

fun show_nat :: "nat \<Rightarrow> string" where
  "show_nat n = (if n < 10 then [digit_char n] else show_nat (n div 10) @ [digit_char (n mod 10)])"

declare show_nat.simps [simp del]

definition show_int :: "int \<Rightarrow> string" where
  "show_int i = (if i < 0 then CHR ''-'' # show_nat (nat (- i)) else show_nat (nat i))"

definition hex_char :: "nat \<Rightarrow> char" where
  "hex_char d = (if d < 10 then char_of (48 + d) else char_of (87 + d))"

definition escape_char :: "char \<Rightarrow> string" where
  "escape_char c =
     (if c = dquote then [bslash, dquote]
      else if c = bslash then [bslash, bslash]
      else if c = CHR 0x08 then [bslash, CHR ''b'']
      else if c = CHR 0x0C then [bslash, CHR ''f'']
      else if c = CHR 0x0A then [bslash, CHR ''n'']
      else if c = CHR 0x0D then [bslash, CHR ''r'']
      else if c = CHR 0x09 then [bslash, CHR ''t'']
      else if (of_char c :: nat) < 32
        then [bslash, CHR ''u'', CHR ''0'', CHR ''0'',
              hex_char (of_char c div 16), hex_char (of_char c mod 16)]
      else [c])"

definition quote :: "string \<Rightarrow> string" where
  "quote s = dquote # concat (map escape_char s) @ [dquote]"

fun commas :: "string list \<Rightarrow> string" where
  "commas [] = []"
| "commas [x] = x"
| "commas (x # y # ys) = x @ CHR '','' # commas (y # ys)"

text \<open>The text that \<open>JSON.stringify\<close> produces when it does not throw.\<close>

fun json_text :: "jvalue \<Rightarrow> string" where
  "json_text JNull = ''null''"
| "json_text (JBool b) = (if b then ''true'' else ''false'')"
| "json_text (JNum n) = show_int n"
| "json_text (JStr s) = quote s"
| "json_text (JArr vs) = CHR ''['' # commas (map json_text vs) @ '']''"
| "json_text (JObj kvs) =
     CHR ''{'' # commas (map (\<lambda>kv. quote (fst kv) @ CHR '':'' # json_text (snd kv)) kvs) @ ''}''"
| "json_text (JBigInt n) = []"

fun serializable :: "jvalue \<Rightarrow> bool" where
  "serializable (JArr vs) = (\<forall>v \<in> set vs. serializable v)"
| "serializable (JObj kvs) = (\<forall>kv \<in> set kvs. serializable (snd kv))"
| "serializable (JBigInt n) = False"
| "serializable _ = True"


datatype error = TypeError | EEXIST | EIO

definition JSON_stringify :: "jvalue \<Rightarrow> error + string" where
  "JSON_stringify v = (if serializable v then Inr (json_text v) else Inl TypeError)"

subsection \<open>\<open>JSON.parse\<close>\<close>

text \<open>
  A recursive-descent reader of JSON text. Its recursion is bounded by a counter that
  \<open>JSON_parse\<close> sets to more than the length of the text, which is more than any text
  needs. Numbers with a fraction or an exponent and \<open>\u\<close> escapes above 255 have no
  value in the model and are rejected. A repeated key overwrites the earlier value in
  place, as \<open>JSON.parse\<close> does.
\<close>

definition is_json_ws :: "char \<Rightarrow> bool" where
  "is_json_ws c = (c = CHR 0x20 \<or> c = CHR 0x09 \<or> c = CHR 0x0A \<or> c = CHR 0x0D)"

definition skip_ws :: "string \<Rightarrow> string" where
  "skip_ws s = dropWhile is_json_ws s"

definition is_digit :: "char \<Rightarrow> bool" where
  "is_digit c = (48 \<le> (of_char c :: nat) \<and> (of_char c :: nat) \<le> 57)"

definition digit_val :: "char \<Rightarrow> nat" where
  "digit_val c = of_char c - 48"

definition nat_of_digits :: "string \<Rightarrow> nat" where
  "nat_of_digits ds = foldl (\<lambda>n c. 10 * n + digit_val c) 0 ds"

definition hex_val :: "char \<Rightarrow> nat option" where
  "hex_val c =
     (let n = (of_char c :: nat)
      in if 48 \<le> n \<and> n \<le> 57 then Some (n - 48)
         else if 97 \<le> n \<and> n \<le> 102 then Some (n - 87)
         else if 65 \<le> n \<and> n \<le> 70 then Some (n - 55)
         else None)"

definition hex4 :: "char \<Rightarrow> char \<Rightarrow> char \<Rightarrow> char \<Rightarrow> nat option" where
  "hex4 a b c d =
     (case (hex_val a, hex_val b, hex_val c, hex_val d) of
        (Some w, Some x, Some y, Some z) \<Rightarrow> Some (((w * 16 + x) * 16 + y) * 16 + z)
      | _ \<Rightarrow> None)"

definition unescape :: "char \<Rightarrow> char option" where
  "unescape e =
     (if e = dquote then Some dquote
      else if e = bslash then Some bslash
      else if e = CHR ''/'' then Some (CHR ''/'')
      else if e = CHR ''b'' then Some (CHR 0x08)
      else if e = CHR ''f'' then Some (CHR 0x0C)
      else if e = CHR ''n'' then Some (CHR 0x0A)
      else if e = CHR ''r'' then Some (CHR 0x0D)
      else if e = CHR ''t'' then Some (CHR 0x09)
      else None)"

definition cons_char :: "char \<Rightarrow> (string \<times> string) option \<Rightarrow> (string \<times> string) option" where
  "cons_char c r = (case r of None \<Rightarrow> None | Some (s, rest) \<Rightarrow> Some (c # s, rest))"

text \<open>The characters of a string literal after its opening quote, and what follows the
  closing quote.\<close>

fun parse_chars :: "string \<Rightarrow> (string \<times> string) option" where
  "parse_chars [] = None"
| "parse_chars (c # cs) =
     (if c = dquote then Some ([], cs)
      else if c = bslash then
        (case cs of
           [] \<Rightarrow> None
         | e # r \<Rightarrow>
             if e = CHR ''u'' then
               (case r of
                  h1 # h2 # h3 # h4 # r' \<Rightarrow>
                    (case hex4 h1 h2 h3 h4 of
                       None \<Rightarrow> None
                     | Some n \<Rightarrow> if n < 256 then cons_char (char_of n) (parse_chars r') else None)
                | _ \<Rightarrow> None)
             else (case unescape e of
                     None \<Rightarrow> None
                   | Some x \<Rightarrow> cons_char x (parse_chars r)))
      else if (of_char c :: nat) < 32 then None
      else cons_char c (parse_chars cs))"

definition parse_number :: "string \<Rightarrow> (jvalue \<times> string) option" where
  "parse_number s =
     (let neg = (s \<noteq> [] \<and> hd s = CHR ''-'');
          s1 = (if neg then tl s else s);
          ds = takeWhile is_digit s1;
          rest = dropWhile is_digit s1
      in if ds = [] then None
         else if hd ds = CHR ''0'' \<and> 1 < length ds then None
         else if rest \<noteq> [] \<and> (hd rest = CHR ''.'' \<or> hd rest = CHR ''e'' \<or> hd rest = CHR ''E'')
           then None
         else Some (JNum (if neg then - int (nat_of_digits ds) else int (nat_of_digits ds)), rest))"

definition keyword :: "string \<Rightarrow> jvalue \<Rightarrow> string \<Rightarrow> (jvalue \<times> string) option" where
  "keyword w v s = (if take (length w) s = w then Some (v, drop (length w) s) else None)"

definition mk_obj :: "(string \<times> jvalue) list \<Rightarrow> jobject" where
  "mk_obj kvs = foldl (\<lambda>obj kv. obj_set obj (fst kv) (snd kv)) [] kvs"

fun parse_value :: "nat \<Rightarrow> string \<Rightarrow> (jvalue \<times> string) option"
  and parse_elements :: "nat \<Rightarrow> string \<Rightarrow> (jvalue list \<times> string) option"
  and parse_members :: "nat \<Rightarrow> string \<Rightarrow> ((string \<times> jvalue) list \<times> string) option"
where
  "parse_value 0 s = None"
| "parse_value (Suc n) s =
     (case skip_ws s of
        [] \<Rightarrow> None
      | c # cs \<Rightarrow>
          if c = CHR ''n'' then keyword ''null'' JNull (c # cs)
          else if c = CHR ''t'' then keyword ''true'' (JBool True) (c # cs)
          else if c = CHR ''f'' then keyword ''false'' (JBool False) (c # cs)
          else if c = dquote then
            (case parse_chars cs of None \<Rightarrow> None | Some (str, r) \<Rightarrow> Some (JStr str, r))
          else if c = CHR ''['' then
            (if skip_ws cs \<noteq> [] \<and> hd (skip_ws cs) = CHR '']'' then Some (JArr [], tl (skip_ws cs))
             else (case parse_elements n cs of
                     None \<Rightarrow> None
                   | Some (vs, r) \<Rightarrow> Some (JArr vs, r)))
          else if c = CHR ''{'' then
            (if skip_ws cs \<noteq> [] \<and> hd (skip_ws cs) = CHR ''}'' then Some (JObj [], tl (skip_ws cs))
             else (case parse_members n cs of
                     None \<Rightarrow> None
                   | Some (kvs, r) \<Rightarrow> Some (JObj (mk_obj kvs), r)))
          else parse_number (c # cs))"
| "parse_elements 0 s = None"
| "parse_elements (Suc n) s =
     (case parse_value n s of
        None \<Rightarrow> None
      | Some (v, r) \<Rightarrow>
          (case skip_ws r of
             [] \<Rightarrow> None
           | c # r' \<Rightarrow>
               if c = CHR '','' then
                 (case parse_elements n r' of
                    None \<Rightarrow> None
                  | Some (vs, r'') \<Rightarrow> Some (v # vs, r''))
               else if c = CHR '']'' then Some ([v], r')
               else None))"
| "parse_members 0 s = None"
| "parse_members (Suc n) s =
     (case skip_ws s of
        [] \<Rightarrow> None
      | q # s1 \<Rightarrow>
          if q \<noteq> dquote then None
          else
            (case parse_chars s1 of
               None \<Rightarrow> None
             | Some (k, s2) \<Rightarrow>
                 (case skip_ws s2 of
                    [] \<Rightarrow> None
                  | colon # s3 \<Rightarrow>
                      if colon \<noteq> CHR '':'' then None
                      else
                        (case parse_value n s3 of
                           None \<Rightarrow> None
                         | Some (v, r) \<Rightarrow>
                             (case skip_ws r of
                                [] \<Rightarrow> None
                              | c # r' \<Rightarrow>
                                  if c = CHR '','' then
                                    (case parse_members n r' of
                                       None \<Rightarrow> None
                                     | Some (kvs, r'') \<Rightarrow> Some ((k, v) # kvs, r''))
                                  else if c = CHR ''}'' then Some ([(k, v)], r')
                                  else None)))))"

definition JSON_parse :: "string \<Rightarrow> jvalue option" where
  "JSON_parse s =
     (case parse_value (Suc (length s)) s of
        None \<Rightarrow> None
      | Some (v, rest) \<Rightarrow> if skip_ws rest = [] then Some v else None)"

subsection \<open>Lines of a file\<close>

text \<open>\<open>content.split("\n")\<close>.\<close>

fun split_newline :: "string \<Rightarrow> string list" where
  "split_newline [] = [[]]"
| "split_newline (c # cs) =
     (if c = newline then [] # split_newline cs
      else (case split_newline cs of
              [] \<Rightarrow> [[c]]
            | l # ls \<Rightarrow> (c # l) # ls))"

definition is_js_space :: "char \<Rightarrow> bool" where
  "is_js_space c = ((9 \<le> (of_char c :: nat) \<and> (of_char c :: nat) \<le> 13)
     \<or> (of_char c :: nat) = 32 \<or> (of_char c :: nat) = 160)"









section \<open>The continuity store (\<open>ContinuityStore\<close>)\<close>

datatype LogLevel = Off | Judgment | Everything

text \<open>The configuration fields that the store reads.\<close>

record ContinuityConfig =
  logLevel :: LogLevel
  storagePath :: string
  enableIntegrityCheck :: bool

record StreamState =
  sequence :: int
  lastHash :: "string option"

record ContinuityStore =
  state :: StreamState
  currentStreamPath :: "string option"
  emergencyMode :: bool
  initialized :: bool

text \<open>The object as the class field initialisers leave it.\<close>

definition new_store :: ContinuityStore where
  "new_store = \<lparr>state = \<lparr>sequence = 0, lastHash = None\<rparr>, currentStreamPath = None,
     emergencyMode = False, initialized = False\<rparr>"

subsection \<open>The storage directory\<close>

text \<open>
  The directory \<open>storagePath\<close>: its regular files by name with their text, in the
  order of creation, and the content of \<open>.state.json\<close>, which only \<open>saveState\<close>
  writes and which is kept parsed (\<open>None\<close>: the file is missing or does not parse).
  Paths are written relative to \<open>storagePath\<close>.
\<close>

record storage =
  files :: "(string \<times> string) list"
  state_json :: "StreamState option"

definition readFile :: "storage \<Rightarrow> string \<Rightarrow> string option" where
  "readFile fs name = map_of (files fs) name"

definition file_exists :: "storage \<Rightarrow> string \<Rightarrow> bool" where
  "file_exists fs name = (readFile fs name \<noteq> None)"

fun append_to :: "(string \<times> string) list \<Rightarrow> string \<Rightarrow> string \<Rightarrow> (string \<times> string) list" where
  "append_to [] name text = [(name, text)]"
| "append_to ((n, c) # fs) name text =
     (if n = name then (n, c @ text) # fs else (n, c) # append_to fs name text)"

text \<open>\<open>fs.appendFile\<close> creates the file when it is missing.\<close>

definition appendFile :: "storage \<Rightarrow> string \<Rightarrow> string \<Rightarrow> storage" where
  "appendFile fs name text = fs\<lparr>files := append_to (files fs) name text\<rparr>"

text \<open>
  What one call observes of its surroundings: the wall clock as
  \<open>new Date().toISOString()\<close> gives it, the answer of \<open>fs.statfs\<close> (\<open>bavail\<close> and
  \<open>bsize\<close>, or \<open>None\<close> when it throws), and which file system calls fail.
\<close>

record io_env =
  clock :: string
  statfs :: "(nat \<times> nat) option"
  mkdir_fails :: bool
  writeFile_fails :: bool
  appendFile_fails :: bool
  open_fails :: bool
  sync_fails :: bool
  close_fails :: bool
  emergency_fails :: bool

text \<open>A call during which nothing fails, at the given time.\<close>

definition quiet_env :: "string \<Rightarrow> io_env" where
  "quiet_env t = \<lparr>clock = t, statfs = None, mkdir_fails = False, writeFile_fails = False,
     appendFile_fails = False, open_fails = False, sync_fails = False, close_fails = False,
     emergency_fails = False\<rparr>"

definition MIN_FREE_SPACE_MB :: nat where
  "MIN_FREE_SPACE_MB = 100"

definition getTodayStreamPath :: "io_env \<Rightarrow> string" where
  "getTodayStreamPath env =
     ''action-stream-'' @ takeWhile (\<lambda>c. c \<noteq> CHR ''T'') (clock env) @ ''.jsonl''"

text \<open>\<open>freeMB > MIN_FREE_SPACE_MB\<close> with
  \<open>freeMB = bavail * bsize / 1024 / 1024\<close>; an unknown answer counts as enough space.\<close>

definition checkDiskSpace :: "io_env \<Rightarrow> bool" where
  "checkDiskSpace env =
     (case statfs env of
        None \<Rightarrow> True
      | Some (bavail, bsize) \<Rightarrow> bavail * bsize > MIN_FREE_SPACE_MB * 1024 * 1024)"

definition stream_header :: "ContinuityConfig \<Rightarrow> io_env \<Rightarrow> jobject" where
  "stream_header cfg env =
     [(''_header'', JBool True), (''schema_version'', JStr ''1.0.0''),
      (''created'', JStr (clock env)), (''integrity_enabled'', JBool (enableIntegrityCheck cfg))]"

text \<open>\<open>fs.writeFile\<close> with the flag \<open>wx\<close> fails when the file exists.\<close>

definition writeStreamHeader ::
  "ContinuityConfig \<Rightarrow> io_env \<Rightarrow> string \<Rightarrow> storage \<Rightarrow> error + storage" where
  "writeStreamHeader cfg env path fs =
     (if file_exists fs path then Inl EEXIST
      else if writeFile_fails env then Inl EIO
      else Inr (appendFile fs path (json_text (JObj (stream_header cfg env)) @ [newline])))"

definition loadState :: "storage \<Rightarrow> StreamState" where
  "loadState fs =
     (case state_json fs of Some s \<Rightarrow> s | None \<Rightarrow> \<lparr>sequence = 0, lastHash = None\<rparr>)"


definition initialize ::
  "ContinuityConfig \<Rightarrow> io_env \<Rightarrow> ContinuityStore \<Rightarrow> storage
     \<Rightarrow> (error + unit) \<times> ContinuityStore \<times> storage" where
  "initialize cfg env st fs =
     (if initialized st then (Inr (), st, fs)
      else if mkdir_fails env then (Inl EIO, st, fs)
      else
        let st1 = st\<lparr>state := loadState fs\<rparr>;
            st2 = st1\<lparr>currentStreamPath := Some (getTodayStreamPath env)\<rparr>
        in if file_exists fs (getTodayStreamPath env)
           then (Inr (), st2\<lparr>initialized := True\<rparr>, fs)
           else (case writeStreamHeader cfg env (getTodayStreamPath env) fs of
                   Inl e \<Rightarrow> (Inl e, st2, fs)
                 | Inr fs' \<Rightarrow> (Inr (), st2\<lparr>initialized := True\<rparr>, fs')))"


subsection \<open>Entries\<close>





subsection \<open>Sealing an entry\<close>

text \<open>The digest \<open>createHash("sha256").update(content).digest("hex")\<close> belongs to the
  runtime library; every definition that hashes takes it as the parameter \<open>sha256\<close>.\<close>

definition calculateHash :: "(string \<Rightarrow> string) \<Rightarrow> jobject \<Rightarrow> string \<Rightarrow> error + string" where
  "calculateHash sha256 action previous =
     (case JSON_stringify (JObj action) of
        Inl e \<Rightarrow> Inl e
      | Inr content \<Rightarrow> Inr (sha256 (content @ previous)))"

definition or_genesis :: "string option \<Rightarrow> string" where
  "or_genesis h = (case h of None \<Rightarrow> ''genesis'' | Some s \<Rightarrow> if s = [] then ''genesis'' else s)"

definition buildStoredAction ::
  "(string \<Rightarrow> string) \<Rightarrow> ContinuityConfig \<Rightarrow> ContinuityStore \<Rightarrow> jobject \<Rightarrow> error + jobject" where
  "buildStoredAction sha256 cfg st entry =
     (let actionForHash = obj_set entry ''sequence'' (JNum (sequence (state st) + 1))
      in if enableIntegrityCheck cfg then
           (let previousHash = or_genesis (lastHash (state st))
            in case calculateHash sha256 actionForHash previousHash of
                 Inl e \<Rightarrow> Inl e
               | Inr hash \<Rightarrow>
                   Inr (obj_set actionForHash ''_integrity''
                          (JObj [(''hash'', JStr hash), (''previous'', JStr previousHash)])))
         else Inr actionForHash)"

text \<open>\<open>storedAction.sequence\<close> and \<open>storedAction._integrity.hash\<close>, read back from the
  sealed object.\<close>

definition stored_sequence :: "jobject \<Rightarrow> int" where
  "stored_sequence a = (case map_of a ''sequence'' of Some (JNum n) \<Rightarrow> n | _ \<Rightarrow> 0)"

definition stored_integrity :: "jobject \<Rightarrow> (string \<times> string) option" where
  "stored_integrity a =
     (case map_of a ''_integrity'' of
        Some (JObj i) \<Rightarrow>
          (case (map_of i ''hash'', map_of i ''previous'') of
             (Some (JStr h), Some (JStr p)) \<Rightarrow> Some (h, p)
           | _ \<Rightarrow> None)
      | _ \<Rightarrow> None)"

subsection \<open>Appending\<close>

definition emergencyEntry :: "io_env \<Rightarrow> jobject \<Rightarrow> jobject" where
  "emergencyEntry env entry =
     obj_set (obj_set entry ''_emergency'' (JBool True)) ''_emergency_timestamp'' (JStr (clock env))"

definition logToEmergency :: "io_env \<Rightarrow> jobject \<Rightarrow> storage \<Rightarrow> bool \<times> storage" where
  "logToEmergency env entry fs =
     (case JSON_stringify (JObj (emergencyEntry env entry)) of
        Inl e \<Rightarrow> (False, fs)
      | Inr line \<Rightarrow>
          if emergency_fails env then (False, fs)
          else (True, appendFile fs ''EMERGENCY_RECOVERY.jsonl'' (line @ [newline])))"

text \<open>Which \<open>return\<close> (or uncaught exception) ends a call of \<open>logAction\<close>.\<close>

datatype route = InEmergencyMode | LowDiskSpace | WriteFailed

datatype outcome =
    LoggingOff
  | NotInitialized
  | ToEmergency route bool
  | SerializationFailed
  | Persisted jobject
  | Threw error

fun returned :: "outcome \<Rightarrow> error + bool" where
  "returned LoggingOff = Inr True"
| "returned NotInitialized = Inr False"
| "returned (ToEmergency r ok) = Inr ok"
| "returned SerializationFailed = Inr False"
| "returned (Persisted a) = Inr True"
| "returned (Threw e) = Inl e"

definition to_emergency ::
  "route \<Rightarrow> io_env \<Rightarrow> jobject \<Rightarrow> ContinuityStore \<Rightarrow> storage
     \<Rightarrow> outcome \<times> ContinuityStore \<times> storage" where
  "to_emergency r env entry st fs =
     (case logToEmergency env entry fs of (ok, fs') \<Rightarrow> (ToEmergency r ok, st, fs'))"

definition commit :: "ContinuityConfig \<Rightarrow> jobject \<Rightarrow> ContinuityStore \<Rightarrow> ContinuityStore" where
  "commit cfg storedAction st =
     st\<lparr>state :=
          \<lparr>sequence = stored_sequence storedAction,
           lastHash =
             (case stored_integrity storedAction of
                Some (h, p) \<Rightarrow> if enableIntegrityCheck cfg then Some h else lastHash (state st)
              | None \<Rightarrow> lastHash (state st))\<rparr>\<rparr>"

definition logAction_path ::
  "(string \<Rightarrow> string) \<Rightarrow> ContinuityConfig \<Rightarrow> io_env \<Rightarrow> jobject \<Rightarrow> ContinuityStore \<Rightarrow> storage
     \<Rightarrow> outcome \<times> ContinuityStore \<times> storage" where
  "logAction_path sha256 cfg env entry st fs =
     (if logLevel cfg = Off then (LoggingOff, st, fs)
      else if \<not> initialized st then (NotInitialized, st, fs)
      else if emergencyMode st then to_emergency InEmergencyMode env entry st fs
      else if \<not> checkDiskSpace env
        then to_emergency LowDiskSpace env entry (st\<lparr>emergencyMode := True\<rparr>) fs
      else
        let todayPath = getTodayStreamPath env;
            rotate = (currentStreamPath st \<noteq> Some todayPath);
            st1 = (if rotate then st\<lparr>currentStreamPath := Some todayPath\<rparr> else st)
        in case (if rotate then writeStreamHeader cfg env todayPath fs else Inr fs) of
             Inl e \<Rightarrow> (Threw e, st1, fs)
           | Inr fs1 \<Rightarrow>
               (case buildStoredAction sha256 cfg st1 entry of
                  Inl e \<Rightarrow> (Threw e, st1, fs1)
                | Inr storedAction \<Rightarrow>
                    (case JSON_stringify (JObj storedAction) of
                       Inl e \<Rightarrow> (SerializationFailed, st1, fs1)
                     | Inr jsonLine \<Rightarrow>
                         if appendFile_fails env then to_emergency WriteFailed env entry st1 fs1
                         else
                           let fs2 = appendFile fs1 todayPath (jsonLine @ [newline])
                           in if open_fails env \<or> sync_fails env \<or> close_fails env
                              then to_emergency WriteFailed env entry st1 fs2
                              else (Persisted storedAction, commit cfg storedAction st1, fs2))))"

text \<open>\<open>logAction\<close> itself: the boolean it resolves to, or the exception it rejects with.\<close>

definition logAction ::
  "(string \<Rightarrow> string) \<Rightarrow> ContinuityConfig \<Rightarrow> io_env \<Rightarrow> jobject \<Rightarrow> ContinuityStore \<Rightarrow> storage
     \<Rightarrow> (error + bool) \<times> ContinuityStore \<times> storage" where
  "logAction sha256 cfg env entry st fs =
     (case logAction_path sha256 cfg env entry st fs of (out, st', fs') \<Rightarrow> (returned out, st', fs'))"

text \<open>A sequence of calls on one store object, each with what it observes.\<close>

fun run_calls ::
  "(string \<Rightarrow> string) \<Rightarrow> ContinuityConfig \<Rightarrow> (io_env \<times> jobject) list \<Rightarrow> ContinuityStore \<Rightarrow> storage
     \<Rightarrow> outcome list \<times> ContinuityStore \<times> storage" where
  "run_calls sha256 cfg [] st fs = ([], st, fs)"
| "run_calls sha256 cfg ((env, entry) # calls) st fs =
     (case logAction_path sha256 cfg env entry st fs of
        (out, st', fs') \<Rightarrow>
          (case run_calls sha256 cfg calls st' fs' of
             (outs, st'', fs'') \<Rightarrow> (out # outs, st'', fs'')))"

fun persisted :: "outcome list \<Rightarrow> jobject list" where
  "persisted [] = []"
| "persisted (Persisted a # outs) = a # persisted outs"
| "persisted (_ # outs) = persisted outs"

subsection \<open>Reading the stream back\<close>

text \<open>What a reader observes: whether \<open>fs.readdir\<close> fails, and for which files
  \<open>fs.readFile\<close> fails.\<close>

record read_env =
  readdir_fails :: bool
  readFile_fails :: "string \<Rightarrow> bool"

text \<open>A reader for which no read fails.\<close>

definition quiet_reads :: read_env where
  "quiet_reads = \<lparr>readdir_fails = False, readFile_fails = (\<lambda>file. False)\<rparr>"














section \<open>The integrity validator (\<open>IntegrityValidator\<close>)\<close>

datatype error_type = hash_mismatch | chain_break | invalid_json | missing_integrity











section \<open>The session restorer (\<open>SessionRestorer\<close>)\<close>







section \<open>Notions used in the statements and proofs\<close>

text \<open>A call that appended to the stream.\<close>

fun appended :: "outcome \<Rightarrow> bool" where
  "appended (Persisted a) = True"
| "appended _ = False"

text \<open>A list of sealed actions in which each names the hash of the one before, starting
  from \<open>p\<close>.\<close>

fun chained :: "string \<Rightarrow> jobject list \<Rightarrow> bool" where
  "chained p [] = True"
| "chained p (a # as) = (\<exists>h. stored_integrity a = Some (h, p) \<and> h \<noteq> [] \<and> chained h as)"

text \<open>What may follow a number in JSON text without being read as part of it.\<close>

definition num_end :: "string \<Rightarrow> bool" where
  "num_end rest = (rest = [] \<or> (\<not> is_digit (hd rest) \<and> hd rest \<noteq> CHR ''.''
     \<and> hd rest \<noteq> CHR ''e'' \<and> hd rest \<noteq> CHR ''E''))"

definition value_start :: "char \<Rightarrow> bool" where
  "value_start c = (\<not> is_json_ws c \<and> \<not> is_js_space c \<and> c \<noteq> newline \<and> c \<noteq> CHR '']'' \<and> c \<noteq> CHR ''}'')"




text \<open>
  The sealed actions that a store leaves in the stream for a list of entries of the
  interface when nothing fails, starting after the sequence number \<open>n\<close> and the hash
  \<open>p\<close>: this is what \<open>buildStoredAction\<close> returns call after call.
\<close>

fun seal_all :: "(string \<Rightarrow> string) \<Rightarrow> bool \<Rightarrow> int \<Rightarrow> string \<Rightarrow> jobject list \<Rightarrow> jobject list" where
  "seal_all H integ n p [] = []"
| "seal_all H integ n p (e # es) =
     (if integ then
        (obj_set e ''sequence'' (JNum (n + 1))
           @ [(''_integrity'',
               JObj [(''hash'', JStr (H (json_text (JObj (obj_set e ''sequence'' (JNum (n + 1)))) @ p))),
                     (''previous'', JStr p)])])
        # seal_all H integ (n + 1) (H (json_text (JObj (obj_set e ''sequence'' (JNum (n + 1)))) @ p)) es
      else obj_set e ''sequence'' (JNum (n + 1)) # seal_all H integ (n + 1) p es)"





section \<open>Concrete data for the examples\<close>

text \<open>A stand-in for the digest in closed examples: a mark followed by a window of eight
  characters of the content. It never returns the empty string or \<open>genesis\<close>, and it
  tells apart the contents that the examples compare.\<close>

definition stub_sha256 :: "string \<Rightarrow> string" where
  "stub_sha256 s = CHR ''#'' # take 8 (drop 127 s)"

definition example_cfg :: ContinuityConfig where
  "example_cfg = \<lparr>logLevel = Everything, storagePath = ''/data'', enableIntegrityCheck = True\<rparr>"

definition example_entry :: "string \<Rightarrow> string \<Rightarrow> jobject" where
  "example_entry i d = [(''id'', JStr i), (''timestamp'', JStr ''2030-01-01T00:00:00.000Z''),
     (''type'', JStr ''tool_call''), (''severity'', JStr ''critical''),
     (''platform'', JStr ''openclaw''), (''description'', JStr d), (''toolName'', JStr ''write'')]"

definition empty_storage :: storage where
  "empty_storage = \<lparr>files = [], state_json = None\<rparr>"

definition day1 :: string where "day1 = ''2030-01-01T00:00:00.000Z''"
definition day2 :: string where "day2 = ''2030-01-02T00:00:00.500Z''"

section \<open>Scenarios\<close>



text \<open>Editing a stored line by hand: the description of the action on a line, the line
  with index \<open>n\<close> of a text (the header is line 0), the text of a file.\<close>

definition set_description :: "string \<Rightarrow> string \<Rightarrow> string" where
  "set_description d line =
     (case JSON_parse line of
        Some (JObj a) \<Rightarrow> json_text (JObj (obj_set a ''description'' (JStr d)))
      | _ \<Rightarrow> line)"

fun join_newline :: "string list \<Rightarrow> string" where
  "join_newline [] = []"
| "join_newline [l] = l"
| "join_newline (l # m # ls) = l @ newline # join_newline (m # ls)"

definition edit_line :: "nat \<Rightarrow> (string \<Rightarrow> string) \<Rightarrow> string \<Rightarrow> string" where
  "edit_line n f content =
     (let ls = split_newline content
      in if n < length ls then join_newline (ls[n := f (ls ! n)]) else content)"

definition edit_file :: "string \<Rightarrow> (string \<Rightarrow> string) \<Rightarrow> storage \<Rightarrow> storage" where
  "edit_file name f fs =
     fs\<lparr>files := map (\<lambda>file. if fst file = name then (name, f (snd file)) else file) (files fs)\<rparr>"

section \<open>More concrete data\<close>

text \<open>The store and the directory after \<open>initialize\<close> on an empty directory.\<close>

definition store1 :: ContinuityStore where
  "store1 = fst (snd (initialize example_cfg (quiet_env day1) new_store empty_storage))"

definition storage1 :: storage where
  "storage1 = snd (snd (initialize example_cfg (quiet_env day1) new_store empty_storage))"

text \<open>Three calls on one day; the file of the second cannot be synced.\<close>

definition example_calls :: "(io_env \<times> jobject) list" where
  "example_calls = [(quiet_env day1, example_entry ''a'' ''w''),
     ((quiet_env day1)\<lparr>sync_fails := True\<rparr>, example_entry ''b'' ''x''),
     (quiet_env day1, example_entry ''c'' ''y'')]"

section \<open>JSON text reads back\<close>

lemma of_char_digit: "d < 10 \<Longrightarrow> (of_char (digit_char d) :: nat) = 48 + d"
  by (simp add: digit_char_def)

lemma is_digit_digit_char [simp]: "d < 10 \<Longrightarrow> is_digit (digit_char d)"
  by (simp add: is_digit_def of_char_digit)

lemma digit_val_digit_char [simp]: "d < 10 \<Longrightarrow> digit_val (digit_char d) = d"
  by (simp add: digit_val_def of_char_digit)



lemma nat_of_digits_snoc: "nat_of_digits (ds @ [c]) = 10 * nat_of_digits ds + digit_val c"
  by (simp add: nat_of_digits_def)

lemma nat_of_digits_show_nat [simp]: "nat_of_digits (show_nat n) = n"
proof (induction n rule: show_nat.induct)
  case (1 n)
  show ?case
  proof (cases "n < 10")
    case True
    then show ?thesis by (subst show_nat.simps) (simp add: nat_of_digits_def)
  next
    case False
    then show ?thesis using 1 by (subst show_nat.simps) (simp add: nat_of_digits_snoc)
  qed
qed


lemma hex_val_hex_char: "d < 16 \<Longrightarrow> hex_val (hex_char d) = Some d"
  by (auto simp: hex_val_def hex_char_def Let_def)

lemma hex_val_zero: "hex_val (CHR ''0'') = Some 0"
  by (simp add: hex_val_def)

lemma parse_chars_plain:
  "c \<noteq> dquote \<Longrightarrow> c \<noteq> bslash \<Longrightarrow> \<not> (of_char c :: nat) < 32 \<Longrightarrow>
   parse_chars (c # tail) = cons_char c (parse_chars tail)"
  by simp

lemma parse_chars_short:
  "unescape x = Some c \<Longrightarrow> x \<noteq> CHR ''u'' \<Longrightarrow>
   parse_chars (bslash # x # tail) = cons_char c (parse_chars tail)"
  by (simp add: dquote_def bslash_def)

lemma parse_chars_u:
  assumes "(of_char c :: nat) < 32"
  shows "parse_chars (bslash # CHR ''u'' # CHR ''0'' # CHR ''0'' #
           hex_char (of_char c div 16) # hex_char (of_char c mod 16) # tail)
         = cons_char c (parse_chars tail)"
proof -
  have "hex4 (CHR ''0'') (CHR ''0'') (hex_char (of_char c div 16)) (hex_char (of_char c mod 16))
        = Some (of_char c)"
    using assms by (simp add: hex4_def hex_val_zero hex_val_hex_char)
  then show ?thesis using assms by (simp add: dquote_def bslash_def)
qed

lemma parse_chars_escape:
  "parse_chars (escape_char c @ tail) = cons_char c (parse_chars tail)"
proof -
  consider (q) "c = dquote" | (b) "c = bslash" | (s) "c \<in> {CHR 0x08, CHR 0x0C, CHR 0x0A, CHR 0x0D, CHR 0x09}"
    | (u) "c \<noteq> dquote" "c \<noteq> bslash" "c \<notin> {CHR 0x08, CHR 0x0C, CHR 0x0A, CHR 0x0D, CHR 0x09}" "(of_char c :: nat) < 32"
    | (p) "c \<noteq> dquote" "c \<noteq> bslash" "\<not> (of_char c :: nat) < 32"
    by blast
  then show ?thesis
  proof cases
    case q
    then show ?thesis
      using parse_chars_short [of dquote dquote tail]
      by (simp add: escape_char_def unescape_def dquote_def)
  next
    case b
    then show ?thesis
      using parse_chars_short [of bslash bslash tail]
      by (simp add: escape_char_def unescape_def dquote_def bslash_def)
  next
    case s
    then show ?thesis
      using parse_chars_short [of "CHR ''b''" c tail] parse_chars_short [of "CHR ''f''" c tail]
        parse_chars_short [of "CHR ''n''" c tail] parse_chars_short [of "CHR ''r''" c tail]
        parse_chars_short [of "CHR ''t''" c tail]
      by (auto simp: escape_char_def unescape_def dquote_def bslash_def simp del: parse_chars.simps)
  next
    case u
    then show ?thesis
      using parse_chars_u [of c tail] by (simp add: escape_char_def del: parse_chars.simps)
  next
    case p
    from p(3) have "c \<notin> {CHR 0x08, CHR 0x0C, CHR 0x0A, CHR 0x0D, CHR 0x09}" by auto
    with p show ?thesis
      using parse_chars_plain [of c tail] by (simp add: escape_char_def del: parse_chars.simps)
  qed
qed

lemma parse_chars_body:
  "parse_chars (concat (map escape_char s) @ dquote # rest) = Some (s, rest)"
proof (induction s)
  case Nil
  show ?case by simp
next
  case (Cons c s)
  have "parse_chars (concat (map escape_char (c # s)) @ dquote # rest)
      = parse_chars (escape_char c @ (concat (map escape_char s) @ dquote # rest))" by simp
  also have "\<dots> = cons_char c (parse_chars (concat (map escape_char s) @ dquote # rest))"
    by (rule parse_chars_escape)
  finally show ?case using Cons.IH by (simp add: cons_char_def)
qed

lemma parse_chars_quote:
  "quote s @ rest = dquote # tl (quote s @ rest) \<and> parse_chars (tl (quote s @ rest)) = Some (s, rest)"
  using parse_chars_body [of s rest] by (simp add: quote_def)

lemma num_end_simps [simp]: "num_end []" "num_end (CHR '','' # r)" "num_end (CHR '']'' # r)" "num_end (CHR ''}'' # r)"
  by (simp_all add: num_end_def is_digit_def)








lemma skip_ws_start [simp]: "value_start c \<Longrightarrow> skip_ws (c # cs) = c # cs"
  by (simp add: skip_ws_def value_start_def)

lemma skip_ws_punct [simp]:
  "skip_ws (CHR '','' # r) = CHR '','' # r" "skip_ws (CHR '']'' # r) = CHR '']'' # r"
  "skip_ws (CHR ''}'' # r) = CHR ''}'' # r" "skip_ws (CHR '':'' # r) = CHR '':'' # r"
  "skip_ws (dquote # r) = dquote # r" "skip_ws (CHR ''['' # r) = CHR ''['' # r"
  "skip_ws (CHR ''{'' # r) = CHR ''{'' # r"
  by (simp_all add: skip_ws_def is_json_ws_def dquote_def)





declare parse_value.simps [simp del] parse_elements.simps [simp del] parse_members.simps [simp del]
declare parse_chars.simps [simp del]

lemma commas_length: "v \<in> set vs \<Longrightarrow> length v \<le> length (commas vs)"
  by (induction vs rule: commas.induct) auto



lemma quote_split: "quote k @ r = dquote # concat (map escape_char k) @ dquote # r"
  by (simp add: quote_def)



lemma dquote_neq [simp]:
  "dquote \<noteq> CHR ''n''" "dquote \<noteq> CHR ''t''" "dquote \<noteq> CHR ''f''" "dquote \<noteq> CHR ''[''"
  "dquote \<noteq> CHR ''{''" "dquote \<noteq> CHR ''}''" "dquote \<noteq> CHR '']''"
  "CHR ''n'' \<noteq> dquote" "CHR ''t'' \<noteq> dquote" "CHR ''f'' \<noteq> dquote" "CHR ''['' \<noteq> dquote"
  "CHR ''{'' \<noteq> dquote" "CHR ''}'' \<noteq> dquote" "CHR '']'' \<noteq> dquote"
  by (simp_all add: dquote_def)



section \<open>The store, call by call\<close>

lemma map_of_obj_set: "map_of (obj_set e k v) k' = (if k' = k then Some v else map_of e k')"
  by (induction e) auto


lemma build_path_irrelevant [simp]:
  "buildStoredAction H cfg (st\<lparr>currentStreamPath := p\<rparr>) entry = buildStoredAction H cfg st entry"
  by (simp add: buildStoredAction_def Let_def)

lemma build_sequence:
  "buildStoredAction H cfg st entry = Inr a \<Longrightarrow> stored_sequence a = sequence (state st) + 1"
  by (auto simp: buildStoredAction_def stored_sequence_def map_of_obj_set Let_def split: sum.splits if_splits)

lemma build_integrity:
  "buildStoredAction H cfg st entry = Inr a \<Longrightarrow> enableIntegrityCheck cfg \<Longrightarrow>
   \<exists>h. stored_integrity a = Some (h, or_genesis (lastHash (state st))) \<and>
       calculateHash H (obj_set entry ''sequence'' (JNum (sequence (state st) + 1)))
         (or_genesis (lastHash (state st))) = Inr h"
  by (auto simp: buildStoredAction_def stored_integrity_def map_of_obj_set Let_def split: sum.splits if_splits)

lemma build_no_integrity:
  "buildStoredAction H cfg st entry = Inr a \<Longrightarrow> \<not> enableIntegrityCheck cfg \<Longrightarrow>
   a = obj_set entry ''sequence'' (JNum (sequence (state st) + 1))"
  by (auto simp: buildStoredAction_def Let_def)

lemma to_emergency_state:
  "to_emergency r env entry st fs = (out, st', fs') \<Longrightarrow> st' = st \<and> (\<exists>ok. out = ToEmergency r ok)"
  by (auto simp: to_emergency_def split: prod.splits)

lemma path_cases:
  assumes "logAction_path H cfg env entry st fs = (out, st', fs')"
  shows "(\<exists>a. out = Persisted a \<and> buildStoredAction H cfg st entry = Inr a \<and>
             state st' = \<lparr>sequence = sequence (state st) + 1,
                          lastHash = (case stored_integrity a of Some (h, p) \<Rightarrow> if enableIntegrityCheck cfg then Some h else lastHash (state st) | None \<Rightarrow> lastHash (state st))\<rparr>)
         \<or> ((\<forall>a. out \<noteq> Persisted a) \<and> state st' = state st)"
  using assms
  unfolding logAction_path_def Let_def
  by (auto simp: commit_def build_sequence split: if_splits sum.splits option.splits dest!: to_emergency_state)

lemma path_cases2:
  assumes "logAction_path H cfg env entry st fs = (out, st', fs')"
  shows "emergencyMode st \<Longrightarrow> emergencyMode st'"
  using assms
  unfolding logAction_path_def Let_def
 by (auto simp: commit_def build_sequence split: if_splits sum.splits option.splits dest!: to_emergency_state)

lemma persisted_length_step:
  "persisted (out # outs) = (case out of Persisted a \<Rightarrow> a # persisted outs | _ \<Rightarrow> persisted outs)"
  by (cases out) auto

lemma upt_shift:
  "(x + 1) # map (\<lambda>i. (x::int) + 1 + int i) [1..<Suc n] = map (\<lambda>i. x + int i) [1..<Suc (Suc n)]"
proof -
  have "[1..<Suc (Suc n)] = 1 # map Suc [1..<Suc n]"
    by (simp add: map_Suc_upt upt_conv_Cons del: upt_Suc)
  then show ?thesis by (simp add: o_def add.assoc del: upt_Suc)
qed

lemma run_sequences:
  "run_calls H cfg calls st fs = (outs, st', fs') \<Longrightarrow>
   map stored_sequence (persisted outs)
     = map (\<lambda>i. sequence (state st) + int i) [1..<Suc (length (persisted outs))]
   \<and> sequence (state st') = sequence (state st) + int (length (persisted outs))"
proof (induction calls arbitrary: st fs outs st' fs')
  case Nil
  then show ?case by simp
next
  case (Cons call calls)
  obtain env entry where call: "call = (env, entry)" by (cases call)
  obtain out st1 fs1 where step: "logAction_path H cfg env entry st fs = (out, st1, fs1)"
    by (cases "logAction_path H cfg env entry st fs")
  obtain outs1 where rest: "run_calls H cfg calls st1 fs1 = (outs1, st', fs')" and outs: "outs = out # outs1"
    using Cons.prems call step by (auto split: prod.splits)
  note IH = Cons.IH [OF rest]
  from path_cases [OF step] show ?case
  proof
    assume "\<exists>a. out = Persisted a \<and> buildStoredAction H cfg st entry = Inr a \<and>
             state st1 = \<lparr>sequence = sequence (state st) + 1,
                          lastHash = (case stored_integrity a of Some (h, p) \<Rightarrow> if enableIntegrityCheck cfg then Some h else lastHash (state st) | None \<Rightarrow> lastHash (state st))\<rparr>"
    then obtain a where a: "out = Persisted a" "buildStoredAction H cfg st entry = Inr a"
      and s1: "sequence (state st1) = sequence (state st) + 1" by auto
    have p: "persisted outs = a # persisted outs1" using outs a by simp
    have sa: "stored_sequence a = sequence (state st) + 1" using a(2) by (rule build_sequence)
    show ?thesis
      using IH upt_shift [of "sequence (state st)" "length (persisted outs1)"]
      unfolding p s1 by (simp add: sa del: upt_Suc)
  next
    assume "(\<forall>a. out \<noteq> Persisted a) \<and> state st1 = state st"
    then have "persisted outs = persisted outs1" "state st1 = state st"
      using outs by (cases out; simp)+
    then show ?thesis using IH by simp
  qed
qed

lemma or_genesis_nonempty [simp]: "h \<noteq> [] \<Longrightarrow> or_genesis (Some h) = h"
  by (simp add: or_genesis_def)

lemma calculateHash_nonempty:
  "(\<And>s. H s \<noteq> []) \<Longrightarrow> calculateHash H a p = Inr h \<Longrightarrow> h \<noteq> []"
  by (auto simp: calculateHash_def split: sum.splits)

lemma run_chained:
  assumes "enableIntegrityCheck cfg" and H: "\<And>s. H s \<noteq> []"
  shows "run_calls H cfg calls st fs = (outs, st', fs') \<Longrightarrow>
         chained (or_genesis (lastHash (state st))) (persisted outs)"
proof (induction calls arbitrary: st fs outs st' fs')
  case Nil
  then show ?case by simp
next
  case (Cons call calls)
  obtain env entry where call: "call = (env, entry)" by (cases call)
  obtain out st1 fs1 where step: "logAction_path H cfg env entry st fs = (out, st1, fs1)"
    by (cases "logAction_path H cfg env entry st fs")
  obtain outs1 where rest: "run_calls H cfg calls st1 fs1 = (outs1, st', fs')" and outs: "outs = out # outs1"
    using Cons.prems call step by (auto split: prod.splits)
  note IH = Cons.IH [OF rest]
  from path_cases [OF step] show ?case
  proof
    assume "\<exists>a. out = Persisted a \<and> buildStoredAction H cfg st entry = Inr a \<and>
             state st1 = \<lparr>sequence = sequence (state st) + 1,
                          lastHash = (case stored_integrity a of Some (h, p) \<Rightarrow> if enableIntegrityCheck cfg then Some h else lastHash (state st) | None \<Rightarrow> lastHash (state st))\<rparr>"
    then obtain a where a: "out = Persisted a" "buildStoredAction H cfg st entry = Inr a"
      and s1: "state st1 = \<lparr>sequence = sequence (state st) + 1,
                          lastHash = (case stored_integrity a of Some (h, p) \<Rightarrow> if enableIntegrityCheck cfg then Some h else lastHash (state st) | None \<Rightarrow> lastHash (state st))\<rparr>" by auto
    from build_integrity [OF a(2) assms(1)] obtain h where
      h: "stored_integrity a = Some (h, or_genesis (lastHash (state st)))"
      and c: "calculateHash H (obj_set entry ''sequence'' (JNum (sequence (state st) + 1)))
         (or_genesis (lastHash (state st))) = Inr h" by blast
    have hne: "h \<noteq> []" using calculateHash_nonempty [OF H c] .
    have l1: "lastHash (state st1) = Some h" using s1 h assms(1) by simp
    have p: "persisted outs = a # persisted outs1" using outs a by simp
    show ?thesis using IH h hne unfolding p l1 by simp
  next
    assume "(\<forall>a. out \<noteq> Persisted a) \<and> state st1 = state st"
    then have "persisted outs = persisted outs1" "state st1 = state st"
      using outs by (cases out; simp)+
    then show ?thesis using IH by simp
  qed
qed

lemma chained_consecutive:
  "chained p as \<Longrightarrow> Suc i < length as \<Longrightarrow>
   \<exists>h q h'. stored_integrity (as ! i) = Some (h, q) \<and> stored_integrity (as ! Suc i) = Some (h', h)"
proof (induction as arbitrary: p i)
  case Nil
  then show ?case by simp
next
  case (Cons a as)
  then obtain h where h: "stored_integrity a = Some (h, p)" "chained h as" by auto
  show ?case
  proof (cases i)
    case 0
    then obtain b bs where as: "as = b # bs" using Cons.prems(2) by (cases as) auto
    then show ?thesis using h 0 by auto
  next
    case (Suc j)
    then show ?thesis using Cons.IH [OF h(2), of j] Cons.prems(2) by simp
  qed
qed

section \<open>Evaluating the examples\<close>

declare json_text.simps [simp del]

lemmas example_defs = example_cfg_def quiet_env_def example_entry_def empty_storage_def day1_def day2_def
  new_store_def store1_def storage1_def quiet_reads_def
lemmas store_defs = initialize_def logAction_path_def logAction_def writeStreamHeader_def
  file_exists_def readFile_def appendFile_def getTodayStreamPath_def checkDiskSpace_def
  loadState_def buildStoredAction_def calculateHash_def JSON_stringify_def to_emergency_def
  logToEmergency_def emergencyEntry_def commit_def stored_sequence_def stored_integrity_def or_genesis_def
  map_of_obj_set Let_def

lemma store1_eq: "store1 = \<lparr>state = \<lparr>sequence = 0, lastHash = None\<rparr>,
     currentStreamPath = Some ''action-stream-2030-01-01.jsonl'', emergencyMode = False, initialized = True\<rparr>"
  by (simp add: example_defs store_defs)

lemma storage1_eq: "storage1 = \<lparr>files = [(''action-stream-2030-01-01.jsonl'',
     json_text (JObj (stream_header example_cfg (quiet_env day1))) @ [newline])], state_json = None\<rparr>"
  by (simp add: example_defs store_defs)

lemma run_outs:
  "run_calls H cfg calls st fs = (outs, st', fs') \<Longrightarrow> out \<in> set outs \<Longrightarrow>
   \<exists>env entry s f s' f'. logAction_path H cfg env entry s f = (out, s', f')"
proof (induction calls arbitrary: st fs outs)
  case Nil
  then show ?case by simp
next
  case (Cons call calls)
  obtain env entry where call: "call = (env, entry)" by (cases call)
  obtain o1 st1 fs1 where step: "logAction_path H cfg env entry st fs = (o1, st1, fs1)"
    by (cases "logAction_path H cfg env entry st fs")
  obtain outs1 where rest: "run_calls H cfg calls st1 fs1 = (outs1, st', fs')" and outs: "outs = o1 # outs1"
    using Cons.prems call step by (auto split: prod.splits)
  show ?case
  proof (cases "out = o1")
    case True
    then show ?thesis using step by blast
  next
    case False
    then have "out \<in> set outs1" using Cons.prems(2) outs by simp
    then show ?thesis using Cons.IH [OF rest] by blast
  qed
qed

lemma not_off:
  "logAction_path H cfg env entry st fs = (out, st', fs') \<Longrightarrow> logLevel cfg \<noteq> Off \<Longrightarrow> out \<noteq> LoggingOff"
  unfolding logAction_path_def Let_def
  by (auto simp: to_emergency_def split: if_splits sum.splits prod.splits)

lemma appended_iff:
  "out \<noteq> LoggingOff \<Longrightarrow> appended out \<longleftrightarrow> (returned out = Inr True \<and> (\<forall>r ok. out \<noteq> ToEmergency r ok))"
  by (cases out) auto

lemma not_appended_state:
  "logAction_path H cfg env entry st fs = (out, st', fs') \<Longrightarrow> \<not> appended out \<Longrightarrow> state st' = state st"
  using path_cases [of H cfg env entry st fs out st' fs'] by auto

section \<open>Sequence numbers\<close>

text \<open>
  Claim C3 (sequence contiguity). In any series of calls on a store whose sequence counter
  is 0, the calls that append to the stream are given the sequence numbers 1, 2, ..., N in
  the order of the calls, and the counter ends at N. A call that does not append (it
  fails, throws or goes to the emergency log) leaves the counter as it was. Unless logging
  is off, the calls that append are those that return true outside the emergency route.
\<close>

theorem sequence_contiguity:
  assumes "sequence (state st) = 0"
    and "run_calls sha256 cfg calls st fs = (outs, st', fs')"
  shows "map stored_sequence (persisted outs) = map int [1..<Suc (length (persisted outs))]
     \<and> sequence (state st') = int (length (persisted outs))
     \<and> (\<forall>env entry s f out s' f'.
           logAction_path sha256 cfg env entry s f = (out, s', f') \<longrightarrow> \<not> appended out
           \<longrightarrow> sequence (state s') = sequence (state s))
     \<and> (logLevel cfg \<noteq> Off \<longrightarrow>
          (\<forall>out \<in> set outs. appended out
             \<longleftrightarrow> (returned out = Inr True \<and> (\<forall>r ok. out \<noteq> ToEmergency r ok))))"
proof (intro conjI)
  show "map stored_sequence (persisted outs) = map int [1..<Suc (length (persisted outs))]"
    using run_sequences [OF assms(2)] assms(1) by simp
  show "sequence (state st') = int (length (persisted outs))"
    using run_sequences [OF assms(2)] assms(1) by simp
  show "\<forall>env entry s f out s' f'.
           logAction_path sha256 cfg env entry s f = (out, s', f') \<longrightarrow> \<not> appended out
           \<longrightarrow> sequence (state s') = sequence (state s)"
    using not_appended_state by metis
  show "logLevel cfg \<noteq> Off \<longrightarrow>
          (\<forall>out \<in> set outs. appended out
             \<longleftrightarrow> (returned out = Inr True \<and> (\<forall>r ok. out \<noteq> ToEmergency r ok)))"
  proof (intro impI ballI)
    fix out assume off: "logLevel cfg \<noteq> Off" and "out \<in> set outs"
    then obtain env entry s f s' f' where "logAction_path sha256 cfg env entry s f = (out, s', f')"
      using run_outs [OF assms(2)] by blast
    then have "out \<noteq> LoggingOff" using off by (rule not_off)
    then show "appended out \<longleftrightarrow> (returned out = Inr True \<and> (\<forall>r ok. out \<noteq> ToEmergency r ok))"
      by (rule appended_iff)
  qed
qed

lemma example_run_appended:
  "map appended (fst (run_calls stub_sha256 example_cfg example_calls store1 storage1)) = [True, False, True]"
  by (simp add: store1_eq storage1_eq example_calls_def example_defs store_defs)

lemma persisted_length: "length (persisted outs) = length (filter appended outs)"
  by (induction outs rule: persisted.induct) auto

theorem sequence_contiguity_witness:
  "sequence (state store1) = 0
   \<and> map stored_sequence (persisted (fst (run_calls stub_sha256 example_cfg example_calls store1 storage1)))
       = [1, 2]"
proof -
  let ?r = "run_calls stub_sha256 example_cfg example_calls store1 storage1"
  have s0: "sequence (state store1) = 0" by (simp add: store1_eq)
  have r: "?r = (fst ?r, fst (snd ?r), snd (snd ?r))" by simp
  have "length (filter appended (fst ?r)) = length (filter id (map appended (fst ?r)))"
    by (simp add: filter_map o_def)
  then have n: "length (persisted (fst ?r)) = 2"
    unfolding persisted_length example_run_appended by simp
  show ?thesis
    using sequence_contiguity [OF s0 r] s0 unfolding n by (simp add: upt_conv_Cons)
qed

section \<open>The hash chain\<close>

text \<open>
  Claim C2 (chain continuity). With integrity checking on and a digest that never returns
  the empty string, in any series of calls on one store every sealed action that is
  appended names as \<open>previous\<close> the hash of the sealed action appended before it, and
  when the store starts with no last hash the first one names \<open>genesis\<close>.
\<close>

theorem chain_continuity:
  assumes "enableIntegrityCheck cfg"
    and "\<And>s. sha256 s \<noteq> []"
    and "run_calls sha256 cfg calls st fs = (outs, st', fs')"
  shows "(\<forall>i. Suc i < length (persisted outs) \<longrightarrow>
            (\<exists>h p h'. stored_integrity (persisted outs ! i) = Some (h, p)
               \<and> stored_integrity (persisted outs ! Suc i) = Some (h', h)))
     \<and> (lastHash (state st) = None \<longrightarrow> persisted outs \<noteq> [] \<longrightarrow>
          (\<exists>h. stored_integrity (hd (persisted outs)) = Some (h, ''genesis'')))"
proof -
  have ch: "chained (or_genesis (lastHash (state st))) (persisted outs)"
    using run_chained [OF assms(1) assms(2) assms(3)] .
  have "\<forall>i. Suc i < length (persisted outs) \<longrightarrow>
            (\<exists>h p h'. stored_integrity (persisted outs ! i) = Some (h, p)
               \<and> stored_integrity (persisted outs ! Suc i) = Some (h', h))"
    using chained_consecutive [OF ch] by blast
  moreover have "lastHash (state st) = None \<longrightarrow> persisted outs \<noteq> [] \<longrightarrow>
          (\<exists>h. stored_integrity (hd (persisted outs)) = Some (h, ''genesis''))"
    using ch by (cases "persisted outs") (auto simp: or_genesis_def)
  ultimately show ?thesis by blast
qed

theorem chain_continuity_witness:
  "enableIntegrityCheck example_cfg \<and> (\<forall>s. stub_sha256 s \<noteq> []) \<and> lastHash (state store1) = None
   \<and> (\<exists>h p h'.
        stored_integrity (persisted (fst (run_calls stub_sha256 example_cfg example_calls store1 storage1)) ! 0)
          = Some (h, ''genesis'')
        \<and> stored_integrity (persisted (fst (run_calls stub_sha256 example_cfg example_calls store1 storage1)) ! 1)
          = Some (h', h))"
proof -
  let ?r = "run_calls stub_sha256 example_cfg example_calls store1 storage1"
  have c: "enableIntegrityCheck example_cfg" by (simp add: example_cfg_def)
  have d: "\<And>s. stub_sha256 s \<noteq> []" by (simp add: stub_sha256_def)
  have l: "lastHash (state store1) = None" by (simp add: store1_eq)
  have r: "?r = (fst ?r, fst (snd ?r), snd (snd ?r))" by simp
  have "length (filter appended (fst ?r)) = length (filter id (map appended (fst ?r)))"
    by (simp add: filter_map o_def)
  then have n: "length (persisted (fst ?r)) = 2"
    unfolding persisted_length example_run_appended by simp
  then have ne: "persisted (fst ?r) \<noteq> []" by auto
  have hd0: "hd (persisted (fst ?r)) = persisted (fst ?r) ! 0" using ne by (simp add: hd_conv_nth)
  from chain_continuity [OF c d r] l ne n hd0 show ?thesis
    using c d by (metis One_nat_def Suc_1 lessI option.inject prod.inject)
qed

section \<open>The emergency log\<close>



lemma state_json_appendFile [simp]: "state_json (appendFile fs n t) = state_json fs"
  by (simp add: appendFile_def)







lemma set_obj_set: "set (obj_set e k v) \<subseteq> insert (k, v) (set e)"
  by (induction e) (auto split: if_splits)

lemma serializable_obj_set:
  assumes "serializable (JObj e)" and "serializable v"
  shows "serializable (JObj (obj_set e k v))"
proof -
  have "\<forall>kv \<in> insert (k, v) (set e). serializable (snd kv)" using assms by simp
  then show ?thesis using set_obj_set [of e k v] by auto
qed

lemma build_serializable:
  assumes "serializable (JObj entry)"
  shows "\<exists>a. buildStoredAction H cfg st entry = Inr a \<and> serializable (JObj a)"
proof -
  let ?a = "obj_set entry ''sequence'' (JNum (sequence (state st) + 1))"
  have s1: "serializable (JObj ?a)" using serializable_obj_set [OF assms, of "JNum (sequence (state st) + 1)"] by simp
  show ?thesis
  proof (cases "enableIntegrityCheck cfg")
    case False
    then show ?thesis using s1 by (simp add: buildStoredAction_def Let_def)
  next
    case True
    obtain h where h: "calculateHash H ?a (or_genesis (lastHash (state st))) = Inr h"
      using s1 by (simp add: calculateHash_def JSON_stringify_def)
    have "serializable (JObj (obj_set ?a ''_integrity''
            (JObj [(''hash'', JStr h), (''previous'', JStr (or_genesis (lastHash (state st))))])))"
      using serializable_obj_set [OF s1, of "JObj [(''hash'', JStr h), (''previous'', JStr (or_genesis (lastHash (state st))))]" "''_integrity''"] by simp
    then show ?thesis using True h by (simp add: buildStoredAction_def Let_def)
  qed
qed

lemma to_emergency_eq:
  "to_emergency r env entry st fs
     = (ToEmergency r (fst (logToEmergency env entry fs)), st, snd (logToEmergency env entry fs))"
  by (simp add: to_emergency_def split: prod.splits)

section \<open>Failure of the primary write\<close>

text \<open>
  Claim C7, as the code has it. When a call gets as far as the write to the stream (logging
  is on, the store is initialised and not in emergency mode, the disk has space, the
  stream file is today's or today's header could be written, the entry can be
  serialised) and \<open>appendFile\<close>, \<open>open\<close>, \<open>sync\<close> or \<open>close\<close> fails, the entry is handed to
  \<open>logToEmergency\<close> and the call returns what that returns. Emergency mode is not set:
  the store is as before, apart from the stream path, and the next call tries the stream
  again.
\<close>

theorem write_failure_fallback:
  assumes "logLevel cfg \<noteq> Off" and "initialized st" and "\<not> emergencyMode st"
    and "checkDiskSpace env"
    and "currentStreamPath st = Some (getTodayStreamPath env)
         \<or> (\<not> file_exists fs (getTodayStreamPath env) \<and> \<not> writeFile_fails env)"
    and "serializable (JObj entry)"
    and "appendFile_fails env \<or> open_fails env \<or> sync_fails env \<or> close_fails env"
  shows "\<exists>fsx. logAction sha256 cfg env entry st fs
           = (Inr (fst (logToEmergency env entry fsx)),
              st\<lparr>currentStreamPath := Some (getTodayStreamPath env)\<rparr>,
              snd (logToEmergency env entry fsx))
         \<and> \<not> emergencyMode (st\<lparr>currentStreamPath := Some (getTodayStreamPath env)\<rparr>)
         \<and> state (st\<lparr>currentStreamPath := Some (getTodayStreamPath env)\<rparr>) = state st"
proof -
  let ?today = "getTodayStreamPath env"
  let ?st1 = "st\<lparr>currentStreamPath := Some ?today\<rparr>"
  obtain a where a: "buildStoredAction sha256 cfg st entry = Inr a" "serializable (JObj a)"
    using build_serializable [OF assms(6)] by blast
  have a1: "buildStoredAction sha256 cfg ?st1 entry = Inr a" using a(1) by simp
  have line: "JSON_stringify (JObj a) = Inr (json_text (JObj a))"
    using a(2) by (simp add: JSON_stringify_def del: json_text.simps serializable.simps)
  have "\<exists>fs1. (if currentStreamPath st \<noteq> Some ?today
        then writeStreamHeader cfg env ?today fs else Inr fs) = Inr fs1"
    using assms(5) by (cases "currentStreamPath st = Some ?today") (simp_all add: writeStreamHeader_def)
  then obtain fs1 where hdr: "(if currentStreamPath st \<noteq> Some ?today
        then writeStreamHeader cfg env ?today fs else Inr fs) = Inr fs1" by blast
  have st1: "(if currentStreamPath st \<noteq> Some ?today then ?st1 else st) = ?st1"
    by auto
  let ?fsx = "if appendFile_fails env then fs1
              else appendFile fs1 ?today (json_text (JObj a) @ [newline])"
  have "logAction_path sha256 cfg env entry st fs = to_emergency WriteFailed env entry ?st1 ?fsx"
    unfolding logAction_path_def Let_def hdr st1
    using assms(1-4,7) a1 line by (auto simp del: json_text.simps serializable.simps)
  then have "logAction sha256 cfg env entry st fs
           = (Inr (fst (logToEmergency env entry ?fsx)), ?st1, snd (logToEmergency env entry ?fsx))"
    by (simp add: logAction_def to_emergency_eq)
  then show ?thesis using assms(3) by auto
qed

theorem write_failure_fallback_witness:
  "fst (logAction stub_sha256 example_cfg ((quiet_env day1)\<lparr>sync_fails := True\<rparr>)
          (example_entry ''b'' ''x'') store1 storage1) = Inr True
   \<and> \<not> emergencyMode (fst (snd (logAction stub_sha256 example_cfg ((quiet_env day1)\<lparr>sync_fails := True\<rparr>)
          (example_entry ''b'' ''x'') store1 storage1)))"
proof -
  let ?env = "(quiet_env day1)\<lparr>sync_fails := True\<rparr>"
  have h: "logLevel example_cfg \<noteq> Off" "initialized store1" "\<not> emergencyMode store1"
    "checkDiskSpace ?env"
    "currentStreamPath store1 = Some (getTodayStreamPath ?env)
         \<or> (\<not> file_exists storage1 (getTodayStreamPath ?env) \<and> \<not> writeFile_fails ?env)"
    "serializable (JObj (example_entry ''b'' ''x''))"
    "appendFile_fails ?env \<or> open_fails ?env \<or> sync_fails ?env \<or> close_fails ?env"
    by (simp_all add: store1_eq example_cfg_def quiet_env_def day1_def checkDiskSpace_def
        getTodayStreamPath_def example_entry_def)
  have ok: "\<And>fsx. fst (logToEmergency ?env (example_entry ''b'' ''x'') fsx) = True"
    by (simp add: logToEmergency_def JSON_stringify_def emergencyEntry_def example_entry_def quiet_env_def)
  from write_failure_fallback [OF h, of stub_sha256] show ?thesis
    using ok by auto
qed

text \<open>
  Claim C7 as stated fails: after a call whose append could not be written, the store is
  not in emergency mode and the next call appends to the stream.
\<close>

theorem write_failure_latch_counterexample:
  "fst (logAction_path stub_sha256 example_cfg ((quiet_env day1)\<lparr>appendFile_fails := True\<rparr>)
          (example_entry ''a'' ''w'') store1 storage1) = ToEmergency WriteFailed True
   \<and> \<not> emergencyMode (fst (snd (logAction_path stub_sha256 example_cfg
          ((quiet_env day1)\<lparr>appendFile_fails := True\<rparr>) (example_entry ''a'' ''w'') store1 storage1)))
   \<and> appended (fst (logAction_path stub_sha256 example_cfg (quiet_env day1) (example_entry ''b'' ''x'')
        (fst (snd (logAction_path stub_sha256 example_cfg
          ((quiet_env day1)\<lparr>appendFile_fails := True\<rparr>) (example_entry ''a'' ''w'') store1 storage1)))
        (snd (snd (logAction_path stub_sha256 example_cfg
          ((quiet_env day1)\<lparr>appendFile_fails := True\<rparr>) (example_entry ''a'' ''w'') store1 storage1)))))"
  by (simp add: store1_eq storage1_eq example_defs store_defs)

section \<open>Exceptions that leave \<open>logAction\<close>\<close>

text \<open>
  Claim C6 fails on the code. The header write of a rotation and the serialisation inside
  \<open>calculateHash\<close> are outside every \<open>try\<close>. A store initialised on 1 January that is
  called on 2 January rejects with \<open>EEXIST\<close> when the file of 2 January exists already,
  and with the I/O error when the header cannot be written; with integrity checking on,
  an entry that holds a \<open>BigInt\<close> makes the call reject with a \<open>TypeError\<close>.
\<close>

theorem logAction_throws:
  "fst (logAction stub_sha256 example_cfg (quiet_env day2) (example_entry ''a'' ''w'') store1
          (appendFile storage1 ''action-stream-2030-01-02.jsonl'' [])) = Inl EEXIST
   \<and> fst (logAction stub_sha256 example_cfg ((quiet_env day2)\<lparr>writeFile_fails := True\<rparr>)
          (example_entry ''a'' ''w'') store1 storage1) = Inl EIO
   \<and> fst (logAction stub_sha256 example_cfg (quiet_env day1)
          (example_entry ''a'' ''w'' @ [(''toolParams'', JObj [(''size'', JBigInt 1)])]) store1 storage1)
       = Inl TypeError"
  by (simp add: store1_eq storage1_eq example_defs store_defs)

section \<open>Lines of the stream file\<close>










lemma split_newline_nonempty [simp]: "split_newline s \<noteq> []"
  by (induction s) (auto split: list.splits)




section \<open>Sealed actions are JSON data\<close>



lemma obj_remove_obj_set: "k \<notin> set (map fst e) \<Longrightarrow> obj_remove k (obj_set e k v) = e"
  by (induction e) (auto simp: obj_remove_def)




section \<open>Hash soundness\<close>










section \<open>Reading recent actions\<close>

declare json_text.simps [simp del]







section \<open>Implicit resumption\<close>


lemma header_timestamp: "get_prop (JObj (stream_header cfg env)) ''timestamp'' = None"
  by (simp add: stream_header_def)



section \<open>The validator on the lines of a stream\<close>











section \<open>A store that logs while nothing fails\<close>

lemma quiet_env_simps [simp]:
  "clock (quiet_env t) = t" "checkDiskSpace (quiet_env t)" "\<not> mkdir_fails (quiet_env t)"
  "\<not> writeFile_fails (quiet_env t)" "\<not> appendFile_fails (quiet_env t)" "\<not> open_fails (quiet_env t)"
  "\<not> sync_fails (quiet_env t)" "\<not> close_fails (quiet_env t)" "\<not> emergency_fails (quiet_env t)"
  by (simp_all add: quiet_env_def checkDiskSpace_def)

lemma appendFile_single:
  "files fs = [(name, content)] \<Longrightarrow> files (appendFile fs name text) = [(name, content @ text)]"
  by (simp add: appendFile_def)

lemma commit_fields [simp]:
  "initialized (commit cfg a st) = initialized st" "emergencyMode (commit cfg a st) = emergencyMode st"
  "currentStreamPath (commit cfg a st) = currentStreamPath st"
  by (simp_all add: commit_def)






section \<open>Recovery after a crash\<close>





lemma seal_all_length [simp]: "length (seal_all H integ n p es) = length es"
proof (induction es arbitrary: n p)
  case Nil
  show ?case by simp
next
  case (Cons e es)
  then show ?case by (cases integ) simp_all
qed
















end
